theory Spec2Isabelle
  imports Complex_Main "HOL-Library.Multiset" "HOL-Library.Sublist"
begin

section \<open>The text summarizer of \<^verbatim>\<open>TextSummarizer\<close> (src/pages/tools/Reminders.tsx, lines 507-605)\<close>

text \<open>
  The component keeps its document in the state variable \<^verbatim>\<open>inputText\<close> and the requested
  number of sentences in \<^verbatim>\<open>summaryLength[0]\<close>. The handler \<^verbatim>\<open>summarizeText\<close> either
  returns early (blank input) or schedules a callback with \<^verbatim>\<open>setTimeout\<close>; the callback
  holds the whole algorithm.

  Strings are modelled as \<^typ>\<open>string\<close>: one \<^typ>\<open>char\<close> is one code unit of the JavaScript
  string, read as a code point below 256 (Latin-1). On that range the regular-expression
  classes and \<^verbatim>\<open>toLowerCase\<close> act on single code units as written below; \<^verbatim>\<open>length\<close> counts
  code units, as \<^const>\<open>length\<close> does here.
  Numbers are modelled exactly: counts as \<^typ>\<open>nat\<close>, scores as \<^typ>\<open>rat\<close> (the sums and the
  factor 1.5 are exact in double precision for every document a browser can hold; the one
  rounding of the final division is not modelled), the slider value as \<^typ>\<open>int\<close>.
  The test \<^verbatim>\<open>index < sentences.length * 0.3\<close> is modelled with the exact product: where
  three tenths of the length is a whole number the double-precision product is that number,
  and elsewhere it is at least a tenth away from every whole number, so the test on
  integers has the same outcome.
\<close>

subsection \<open>Character classes\<close>

definition isWhiteSpace :: "char \<Rightarrow> bool" where
  \<comment> \<open>\<^verbatim>\<open>\s\<close> and the characters removed by \<^verbatim>\<open>trim\<close>: TAB, LF, VT, FF, CR, SP, NBSP.\<close>
  "isWhiteSpace c \<longleftrightarrow>
     c = CHR 0x09 \<or> c = CHR 0x0A \<or> c = CHR 0x0B \<or> c = CHR 0x0C \<or> c = CHR 0x0D
     \<or> c = CHR 0x20 \<or> c = CHR 0xA0"

definition isWordChar :: "char \<Rightarrow> bool" where
  \<comment> \<open>\<^verbatim>\<open>\w\<close> is \<^verbatim>\<open>[A-Za-z0-9_]\<close>.\<close>
  "isWordChar c \<longleftrightarrow>
     (let n = (of_char c :: nat)
      in (48 \<le> n \<and> n \<le> 57) \<or> (65 \<le> n \<and> n \<le> 90) \<or> n = 95 \<or> (97 \<le> n \<and> n \<le> 122))"

definition isTerminator :: "char \<Rightarrow> bool" where
  \<comment> \<open>the class \<^verbatim>\<open>[.!?]\<close>\<close>
  "isTerminator c \<longleftrightarrow> c = CHR ''.'' \<or> c = CHR ''!'' \<or> c = CHR ''?''"

definition lowerChar :: "char \<Rightarrow> char" where
  \<comment> \<open>\<^verbatim>\<open>toLowerCase\<close> on one Latin-1 code unit: A-Z and the accented capitals
      U+00C0..U+00DE (without the multiplication sign U+00D7) move up by 32.\<close>
  "lowerChar c =
     (let n = (of_char c :: nat)
      in if (65 \<le> n \<and> n \<le> 90) \<or> (192 \<le> n \<and> n \<le> 222 \<and> n \<noteq> 215)
         then char_of (n + 32) else c)"

definition toLowerCase :: "string \<Rightarrow> string" where
  "toLowerCase s = map lowerChar s"

subsection \<open>String methods\<close>

definition trim :: "string \<Rightarrow> string" where
  \<comment> \<open>\<^verbatim>\<open>String.prototype.trim\<close>: white space removed at both ends.\<close>
  "trim s = rev (dropWhile isWhiteSpace (rev (dropWhile isWhiteSpace s)))"

function split_on :: "(char \<Rightarrow> bool) \<Rightarrow> string \<Rightarrow> string list" where
  \<comment> \<open>\<^verbatim>\<open>s.split(/[cls]+/)\<close> for a character class \<open>cls\<close>: the pieces between maximal runs
      of separator characters, with an empty piece before a leading run and after a trailing
      run; the empty string gives one empty piece.\<close>
  "split_on cls s =
     (let piece = takeWhile (\<lambda>c. \<not> cls c) s;
          rest = dropWhile (\<lambda>c. \<not> cls c) s
      in if rest = [] then [piece]
         else piece # split_on cls (dropWhile cls rest))"
  by pat_completeness auto
termination
proof (relation "measure (\<lambda>(cls, s). length s)")
  show "wf (measure (\<lambda>(cls, s). length s))" by simp
next
  fix cls :: "char \<Rightarrow> bool" and s piece rest :: string
  assume r: "rest = dropWhile (\<lambda>c. \<not> cls c) s" and ne: "rest \<noteq> []"
  from ne obtain c cs where rc: "rest = c # cs" by (cases rest) auto
  have "dropWhile (\<lambda>c. \<not> cls c) s \<noteq> []" using ne r by simp
  then have "\<not> \<not> cls (hd (dropWhile (\<lambda>c. \<not> cls c) s))" by (rule hd_dropWhile)
  then have "cls (hd rest)" unfolding r by simp
  then have "cls c" unfolding rc by simp
  then have "length (dropWhile cls rest) \<le> length cs"
    using rc by (simp add: length_dropWhile_le)
  moreover have "length rest \<le> length s"
    using r by (simp add: length_dropWhile_le)
  ultimately have "length (dropWhile cls rest) < length s" using rc by simp
  then show "((cls, dropWhile cls rest), (cls, s)) \<in> measure (\<lambda>(cls, s). length s)"
    by simp
qed

declare split_on.simps [simp del]

fun joinWith :: "string \<Rightarrow> string list \<Rightarrow> string" where
  \<comment> \<open>\<^verbatim>\<open>Array.prototype.join(sep)\<close>\<close>
  "joinWith sep [] = []"
| "joinWith sep [x] = x"
| "joinWith sep (x # y # ys) = x @ sep @ joinWith sep (y # ys)"

subsection \<open>Array methods\<close>

fun insert_cmp :: "('a \<Rightarrow> 'a \<Rightarrow> 'b::{zero,linorder}) \<Rightarrow> 'a \<Rightarrow> 'a list \<Rightarrow> 'a list" where
  "insert_cmp cmp x [] = [x]"
| "insert_cmp cmp x (y # ys) =
     (if cmp x y \<le> 0 then x # y # ys else y # insert_cmp cmp x ys)"

definition sort_cmp :: "('a \<Rightarrow> 'a \<Rightarrow> 'b::{zero,linorder}) \<Rightarrow> 'a list \<Rightarrow> 'a list" where
  \<comment> \<open>\<^verbatim>\<open>Array.prototype.sort(cmp)\<close>. For a consistent comparator the language fixes the
      result: ordered by \<open>cmp\<close>, elements that compare equal in their former order (the sort
      is stable). A stable insertion sort computes that result: each element, taken from
      the right, goes before the first element it does not compare greater than.\<close>
  "sort_cmp cmp xs = foldr (insert_cmp cmp) xs []"

definition slice0 :: "int \<Rightarrow> 'a list \<Rightarrow> 'a list" where
  \<comment> \<open>\<^verbatim>\<open>Array.prototype.slice(0, end)\<close> for an integer \<open>end\<close>: a negative \<open>end\<close> counts
      from the end of the array.\<close>
  "slice0 end xs =
     (if end < 0 then take (nat (max (int (length xs) + end) 0)) xs
      else take (nat (min end (int (length xs)))) xs)"

subsection \<open>The algorithm (the callback given to \<^verbatim>\<open>setTimeout\<close>, lines 528-593)\<close>

definition sentences :: "string \<Rightarrow> string list" where
  \<comment> \<open>lines 529-532\<close>
  "sentences inputText =
     filter (\<lambda>s. length s > 10) (map (\<lambda>s. trim s) (split_on isTerminator inputText))"

definition qualifyingWords :: "string \<Rightarrow> string list" where
  \<comment> \<open>the chain \<^verbatim>\<open>.toLowerCase().replace(/[^\w\s]/g, ' ').split(/\s+/).filter(word => word.length > 3)\<close>
      of lines 542-546 (on the document) and 555-559 (on a sentence)\<close>
  "qualifyingWords text =
     filter (\<lambda>word. length word > 3)
       (split_on isWhiteSpace
          (map (\<lambda>c. if isWordChar c \<or> isWhiteSpace c then c else CHR '' '') (toLowerCase text)))"

definition words :: "string \<Rightarrow> string list" where
  "words inputText = qualifyingWords inputText"

definition getOr0 :: "(string \<rightharpoonup> nat) \<Rightarrow> string \<Rightarrow> nat" where
  \<comment> \<open>\<^verbatim>\<open>wordFreq.get(word) || 0\<close>: an absent key gives \<^verbatim>\<open>undefined\<close>, which is falsy.\<close>
  "getOr0 m word = (case m word of None \<Rightarrow> 0 | Some c \<Rightarrow> c)"

definition wordFreq :: "string \<Rightarrow> (string \<rightharpoonup> nat)" where
  \<comment> \<open>lines 541 and 549-551: the \<^verbatim>\<open>forEach\<close> over \<^verbatim>\<open>words\<close>, from the empty map\<close>
  "wordFreq inputText =
     fold (\<lambda>word m. m(word \<mapsto> getOr0 m word + 1)) (words inputText) Map.empty"

record scored =
  sentence :: string
  score :: rat
  index :: nat

definition scoreSentence :: "(string \<rightharpoonup> nat) \<Rightarrow> nat \<Rightarrow> string \<Rightarrow> nat \<Rightarrow> scored" where
  \<comment> \<open>the function mapped over \<^verbatim>\<open>sentences\<close>, lines 554-576; \<open>s\<close> and \<open>i\<close> are its
      arguments \<^verbatim>\<open>sentence\<close> and \<^verbatim>\<open>index\<close>, \<open>len\<close> is \<^verbatim>\<open>sentences.length\<close>.
      In the returned score, \<^verbatim>\<open>score / sentenceWords.length || 0\<close>:
      with no qualifying word the loop has added nothing, \<^verbatim>\<open>0 / 0\<close> is \<^verbatim>\<open>NaN\<close>, which is
      falsy, so the score is 0; a quotient 0 is falsy too and gives 0.\<close>
  "scoreSentence freq len s i =
     (let sentenceWords = qualifyingWords s;
          score0 = fold (\<lambda>word score. score + of_nat (getOr0 freq word)) sentenceWords (0::rat);
          score1 = (if of_nat i < of_nat len * (3 / 10 :: rat)
                    then score0 * (3 / 2) else score0)
      in \<lparr> sentence = trim s @ ''.'',
           score = (if length sentenceWords = 0 then 0
                    else score1 / of_nat (length sentenceWords)),
           index = i \<rparr>)"

definition sentenceScores :: "string \<Rightarrow> scored list" where
  "sentenceScores inputText =
     (let ss = sentences inputText
      in map (\<lambda>(i, s). scoreSentence (wordFreq inputText) (length ss) s i)
           (enumerate 0 ss))"

definition topSentences :: "string \<Rightarrow> int \<Rightarrow> scored list" where
  \<comment> \<open>lines 579-582; \<open>summaryLength0\<close> is \<^verbatim>\<open>summaryLength[0]\<close>\<close>
  "topSentences inputText summaryLength0 =
     sort_cmp (\<lambda>a b. int (index a) - int (index b))
       (slice0 (min summaryLength0 (int (length (sentences inputText))))
          (sort_cmp (\<lambda>a b. score b - score a) (sentenceScores inputText)))"

definition summarizedText :: "string \<Rightarrow> int \<Rightarrow> string" where
  \<comment> \<open>lines 584-586\<close>
  "summarizedText inputText summaryLength0 =
     joinWith '' '' (map sentence (topSentences inputText summaryLength0))"

subsection \<open>The component state and the handler\<close>

datatype toast =
    NoText              \<comment> \<open>"No Text" / "Please enter text to summarize"\<close>
  | SummaryGenerated nat \<comment> \<open>"Summary Generated" / "Summarized to n key sentences"\<close>
  | Copied               \<comment> \<open>"Copied!" / "Summary copied to clipboard" (lines 607-614)\<close>

record ui_state =
  inputText :: string
  summary :: string
  summaryLength0 :: int
  isProcessing :: bool
  toasts :: "toast list"               \<comment> \<open>the toasts shown so far, oldest first\<close>
  timers :: "(string \<times> int) list"     \<comment> \<open>pending callbacks, each with the \<^verbatim>\<open>inputText\<close> and
                                           \<^verbatim>\<open>summaryLength[0]\<close> its closure captured\<close>

definition noValidSentences :: string where
  "noValidSentences = ''No valid sentences found for summarization.''"

definition couldNotGenerate :: string where
  "couldNotGenerate = ''Could not generate summary from the provided text.''"

definition timeoutCallback :: "string \<Rightarrow> int \<Rightarrow> ui_state \<Rightarrow> ui_state" where
  \<comment> \<open>lines 527-604. No operation of the \<^verbatim>\<open>try\<close> block throws on strings and numbers, so
      the \<^verbatim>\<open>catch\<close> branch is not reached; \<^verbatim>\<open>finally\<close> clears \<^verbatim>\<open>isProcessing\<close>.\<close>
  "timeoutCallback doc n st =
     (if length (sentences doc) = 0
      then st\<lparr> summary := noValidSentences, isProcessing := False \<rparr>
      else
        let txt = summarizedText doc n
        in st\<lparr> summary := (if txt = [] then couldNotGenerate else txt),
               toasts := toasts st @ [SummaryGenerated (length (topSentences doc n))],
               isProcessing := False \<rparr>)"

definition summarizeText :: "ui_state \<Rightarrow> ui_state" where
  \<comment> \<open>lines 514-605: the click handler\<close>
  "summarizeText st =
     (if trim (inputText st) = []
      then st\<lparr> toasts := toasts st @ [NoText] \<rparr>
      else st\<lparr> isProcessing := True,
               timers := timers st @ [(inputText st, summaryLength0 st)] \<rparr>)"

definition fireTimer :: "ui_state \<Rightarrow> ui_state" where
  \<comment> \<open>the browser runs the oldest pending callback\<close>
  "fireTimer st =
     (case timers st of
        [] \<Rightarrow> st
      | (doc, n) # rest \<Rightarrow> timeoutCallback doc n (st\<lparr> timers := rest \<rparr>))"

definition summarize :: "string \<Rightarrow> int \<Rightarrow> ui_state \<Rightarrow> ui_state" where
  \<comment> \<open>one use of the tool: the document and the slider value are entered, the button is
      pressed, the timer fires\<close>
  "summarize doc n st =
     fireTimer (summarizeText (st\<lparr> inputText := doc, summaryLength0 := n \<rparr>))"

subsection \<open>The algorithm in the words of its specification\<close>

definition spec_tokenize :: "string \<Rightarrow> string list" where
  \<comment> \<open>lowercase, replace every character that is neither a word character nor white space
      with a space, split on white space, drop the tokens of length at most 3\<close>
  "spec_tokenize text =
     filter (\<lambda>t. \<not> length t \<le> 3)
       (split_on isWhiteSpace
          (map (\<lambda>c. if \<not> isWordChar c \<and> \<not> isWhiteSpace c then CHR '' '' else c)
             (map lowerChar text)))"

definition spec_frequency :: "string \<Rightarrow> string \<Rightarrow> nat" where
  \<comment> \<open>the frequency table: one increment per surviving token of the whole document\<close>
  "spec_frequency doc t = count_list (spec_tokenize doc) t"

definition spec_score :: "string \<Rightarrow> string \<Rightarrow> rat" where
  \<comment> \<open>the length-normalized score of a sentence: the table's counts summed over the
      sentence's own tokens, divided by their number; 0 when the sentence has no token\<close>
  "spec_score doc s =
     (if spec_tokenize s = [] then 0
      else of_nat (sum_list (map (spec_frequency doc) (spec_tokenize s)))
           / of_nat (length (spec_tokenize s)))"

subsection \<open>Example documents\<close>

definition doc_single :: string where
  "doc_single = ''The quick brown foxes jump''"

definition doc_pair :: string where
  "doc_pair = ''Alpha beta gamma delta. Foxes foxes foxes foxes.''"

definition doc_twice :: string where
  "doc_twice = ''Hello world again. Hello world again.''"

definition doc_three :: string where
  "doc_three = ''Tigers hunt alone at night! Do tigers swim well? Tigers swim very well.''"

definition doc_tiny :: string where
  "doc_tiny = ''It is as we do so''"

definition doc_short :: string where
  "doc_short = ''... . !!''"

definition state0 :: ui_state where
  \<comment> \<open>the state of the freshly mounted component (lines 508-511)\<close>
  "state0 = \<lparr> inputText = [], summary = [], summaryLength0 = 3, isProcessing = False,
               toasts = [], timers = [] \<rparr>"

subsection \<open>The events of the component\<close>





section \<open>Properties of the string and array methods\<close>

subsection \<open>\<^const>\<open>trim\<close>\<close>

lemma dropWhile_snoc_keeps:
  "\<not> P a \<Longrightarrow> \<exists>zs. dropWhile P (ys @ [a]) = zs @ [a]"
  by (induction ys) auto

lemma dropWhile_all_iff: "(\<forall>x\<in>set (dropWhile P xs). P x) \<longleftrightarrow> dropWhile P xs = []"
proof
  assume a: "\<forall>x\<in>set (dropWhile P xs). P x"
  show "dropWhile P xs = []"
  proof (rule ccontr)
    assume ne: "dropWhile P xs \<noteq> []"
    then have "\<not> P (hd (dropWhile P xs))" by (rule hd_dropWhile)
    moreover have "hd (dropWhile P xs) \<in> set (dropWhile P xs)" using ne by simp
    ultimately show False using a by blast
  qed
qed (auto dest: set_dropWhileD)

lemma trim_blank_iff: "trim s = [] \<longleftrightarrow> (\<forall>c\<in>set s. isWhiteSpace c)"
proof -
  have "trim s = [] \<longleftrightarrow> (\<forall>x\<in>set (dropWhile isWhiteSpace s). isWhiteSpace x)"
    unfolding trim_def by (simp add: dropWhile_eq_Nil_conv)
  also have "\<dots> \<longleftrightarrow> dropWhile isWhiteSpace s = []" by (rule dropWhile_all_iff)
  also have "\<dots> \<longleftrightarrow> (\<forall>c\<in>set s. isWhiteSpace c)" by (simp add: dropWhile_eq_Nil_conv)
  finally show ?thesis .
qed

lemma trim_trim: "trim (trim s) = trim s"
proof (cases "dropWhile isWhiteSpace s")
  case Nil
  show ?thesis unfolding trim_def Nil by simp
next
  case (Cons a u)
  have "dropWhile isWhiteSpace s \<noteq> []" using Cons by simp
  then have "\<not> isWhiteSpace (hd (dropWhile isWhiteSpace s))" by (rule hd_dropWhile)
  then have na: "\<not> isWhiteSpace a" using Cons by simp
  obtain zs where zs: "dropWhile isWhiteSpace (rev u @ [a]) = zs @ [a]"
    using dropWhile_snoc_keeps [of isWhiteSpace a "rev u"] na by blast
  have t: "trim s = a # rev zs"
    by (simp add: trim_def Cons zs)
  have "dropWhile isWhiteSpace (zs @ [a]) = zs @ [a]"
    using zs dropWhile_idem [of isWhiteSpace "rev u @ [a]"] by simp
  then have "dropWhile isWhiteSpace (rev (a # rev zs)) = zs @ [a]"
    by simp
  then show ?thesis
    unfolding t by (simp add: trim_def na)
qed

lemma set_trim: "set (trim s) \<subseteq> set s"
proof
  fix c assume "c \<in> set (trim s)"
  then have "c \<in> set (dropWhile isWhiteSpace (rev (dropWhile isWhiteSpace s)))"
    by (simp add: trim_def)
  then have "c \<in> set (rev (dropWhile isWhiteSpace s))" by (rule set_dropWhileD)
  then have "c \<in> set (dropWhile isWhiteSpace s)" by simp
  then show "c \<in> set s" by (rule set_dropWhileD)
qed

subsection \<open>Sorting\<close>

lemma mset_insert_cmp: "mset (insert_cmp cmp x xs) = add_mset x (mset xs)"
  by (induction xs) auto

lemma mset_sort_cmp: "mset (sort_cmp cmp xs) = mset xs"
  unfolding sort_cmp_def by (induction xs) (auto simp: mset_insert_cmp)

lemma set_sort_cmp: "set (sort_cmp cmp xs) = set xs"
proof -
  have "set_mset (mset (sort_cmp cmp xs)) = set_mset (mset xs)"
    by (simp only: mset_sort_cmp)
  then show ?thesis by simp
qed

lemma length_sort_cmp: "length (sort_cmp cmp xs) = length xs"
proof -
  have "size (mset (sort_cmp cmp xs)) = size (mset xs)"
    by (simp only: mset_sort_cmp)
  then show ?thesis by simp
qed

lemma insert_cmp_insort_key:
  "insert_cmp (\<lambda>a b. int (f a) - int (f b)) x ys = insort_key f x ys"
  by (induction ys) auto

lemma sort_cmp_sort_key:
  "sort_cmp (\<lambda>a b. int (f a) - int (f b)) xs = sort_key f xs"
  unfolding sort_cmp_def by (induction xs) (auto simp: insert_cmp_insort_key)

lemma sorted_sort_cmp_index:
  "sorted (map f (sort_cmp (\<lambda>a b. int (f a) - int (f b)) xs))"
  by (simp add: sort_cmp_sort_key)

lemma set_slice0: "set (slice0 e xs) \<subseteq> set xs"
  unfolding slice0_def by (auto dest: in_set_takeD)

lemma mset_take_subset: "mset (take n xs) \<subseteq># mset xs"
proof -
  have "mset xs = mset (take n xs) + mset (drop n xs)"
    by (simp flip: mset_append)
  then show ?thesis by simp
qed

lemma mset_slice0: "mset (slice0 e xs) \<subseteq># mset xs"
  unfolding slice0_def by (simp add: mset_take_subset)

lemma length_slice0:
  "length (slice0 e xs) = (if e < 0 then nat (int (length xs) + e) else min (nat e) (length xs))"
  unfolding slice0_def by auto

subsection \<open>\<^const>\<open>split_on\<close>\<close>

lemma split_on_last:
  "dropWhile (\<lambda>c. \<not> cls c) s = [] \<Longrightarrow> split_on cls s = [s]"
proof -
  assume a: "dropWhile (\<lambda>c. \<not> cls c) s = []"
  have "takeWhile (\<lambda>c. \<not> cls c) s @ dropWhile (\<lambda>c. \<not> cls c) s = s"
    by (rule takeWhile_dropWhile_id)
  then have "takeWhile (\<lambda>c. \<not> cls c) s = s" unfolding a by simp
  then show ?thesis by (subst split_on.simps) (simp only: Let_def a simp_thms if_True)
qed

lemma split_on_more:
  "dropWhile (\<lambda>c. \<not> cls c) s \<noteq> [] \<Longrightarrow>
   split_on cls s =
     takeWhile (\<lambda>c. \<not> cls c) s # split_on cls (dropWhile cls (dropWhile (\<lambda>c. \<not> cls c) s))"
  by (subst split_on.simps) (simp only: Let_def simp_thms if_False)

lemma split_on_no_sep: "p \<in> set (split_on cls s) \<Longrightarrow> c \<in> set p \<Longrightarrow> \<not> cls c"
proof (induction cls s rule: split_on.induct)
  case (1 cls s)
  show ?case
  proof (cases "dropWhile (\<lambda>c. \<not> cls c) s = []")
    case True
    then have "\<forall>x\<in>set s. \<not> cls x" by (simp only: dropWhile_eq_Nil_conv)
    moreover have "p = s" using "1.prems"(1) split_on_last [OF True] by simp
    ultimately show ?thesis using "1.prems"(2) by blast
  next
    case False
    from "1.prems"(1) split_on_more [OF False]
    consider "p = takeWhile (\<lambda>c. \<not> cls c) s"
      | "p \<in> set (split_on cls (dropWhile cls (dropWhile (\<lambda>c. \<not> cls c) s)))"
      by auto
    then show ?thesis
    proof cases
      case 1
      then show ?thesis using "1.prems"(2) by (auto dest: set_takeWhileD)
    next
      case 2
      show ?thesis
        by (rule "1.IH" [OF refl refl False 2 "1.prems"(2)])
    qed
  qed
qed

lemma concat_split_on: "concat (split_on cls s) = filter (\<lambda>c. \<not> cls c) s"
proof (induction cls s rule: split_on.induct)
  case (1 cls s)
  let ?P = "\<lambda>c. \<not> cls c"
  have s: "takeWhile ?P s @ dropWhile ?P s = s" by (rule takeWhile_dropWhile_id)
  show ?case
  proof (cases "dropWhile ?P s = []")
    case True
    then have "\<forall>c\<in>set s. ?P c" by (simp only: dropWhile_eq_Nil_conv)
    then have "filter ?P s = s" by simp
    then show ?thesis by (simp add: split_on_last [OF True])
  next
    case False
    let ?r = "dropWhile ?P s"
    have "concat (split_on cls s) = takeWhile ?P s @ concat (split_on cls (dropWhile cls ?r))"
      by (simp add: split_on_more [OF False])
    also have "\<dots> = takeWhile ?P s @ filter ?P (dropWhile cls ?r)"
      using "1.IH" [OF refl refl False] by simp
    also have "filter ?P (dropWhile cls ?r) = filter ?P ?r"
    proof -
      have "takeWhile cls ?r @ dropWhile cls ?r = ?r" by (rule takeWhile_dropWhile_id)
      then have "filter ?P ?r = filter ?P (takeWhile cls ?r) @ filter ?P (dropWhile cls ?r)"
        using filter_append [of ?P "takeWhile cls ?r" "dropWhile cls ?r"] by simp
      moreover have "filter ?P (takeWhile cls ?r) = []"
        by (auto simp: filter_empty_conv dest: set_takeWhileD)
      ultimately show ?thesis by simp
    qed
    also have "takeWhile ?P s @ filter ?P ?r = filter ?P (takeWhile ?P s) @ filter ?P ?r"
    proof -
      have "filter ?P (takeWhile ?P s) = takeWhile ?P s"
        by (auto simp: filter_id_conv dest: set_takeWhileD)
      then show ?thesis by simp
    qed
    also have "\<dots> = filter ?P s"
      using filter_append [of ?P "takeWhile ?P s" "dropWhile ?P s"] s by simp
    finally show ?thesis .
  qed
qed

lemma split_on_pieces_subset: "p \<in> set (split_on cls s) \<Longrightarrow> set p \<subseteq> set s"
proof -
  assume "p \<in> set (split_on cls s)"
  then have "set p \<subseteq> set (concat (split_on cls s))" by auto
  then show ?thesis unfolding concat_split_on by auto
qed

section \<open>Properties of the algorithm\<close>

subsection \<open>The sentence pool and its tags\<close>

lemma sentences_trimmed: "s \<in> set (sentences doc) \<Longrightarrow> trim s = s"
  unfolding sentences_def by (auto simp: trim_trim)

lemma sentences_nth_trimmed:
  "i < length (sentences doc) \<Longrightarrow> trim (sentences doc ! i) = sentences doc ! i"
  by (rule sentences_trimmed) (rule nth_mem)

lemma sentences_long: "s \<in> set (sentences doc) \<Longrightarrow> 10 < length s"
  unfolding sentences_def by simp

lemma sentences_no_terminator:
  "s \<in> set (sentences doc) \<Longrightarrow> c \<in> set s \<Longrightarrow> \<not> isTerminator c"
proof -
  assume "s \<in> set (sentences doc)" and c: "c \<in> set s"
  then obtain p where p: "p \<in> set (split_on isTerminator doc)" and s: "s = trim p"
    unfolding sentences_def by auto
  from c s have "c \<in> set p" using set_trim [of p] by blast
  with p show ?thesis by (rule split_on_no_sep)
qed

lemma sentences_blank: "trim doc = [] \<Longrightarrow> sentences doc = []"
proof -
  assume "trim doc = []"
  then have ws: "\<forall>c\<in>set doc. isWhiteSpace c" by (simp only: trim_blank_iff)
  have "\<not> 10 < length (trim p)" if "p \<in> set (split_on isTerminator doc)" for p
  proof -
    have "set p \<subseteq> set doc" using that by (rule split_on_pieces_subset)
    then have "\<forall>c\<in>set p. isWhiteSpace c" using ws by blast
    then have "trim p = []" by (simp only: trim_blank_iff)
    then show ?thesis by simp
  qed
  then show ?thesis unfolding sentences_def by (simp add: filter_empty_conv)
qed

lemma index_scoreSentence [simp]: "index (scoreSentence freq len s i) = i"
  by (simp add: scoreSentence_def Let_def)

lemma sentence_scoreSentence [simp]: "sentence (scoreSentence freq len s i) = trim s @ ''.''"
  by (simp add: scoreSentence_def Let_def)

lemma length_sentenceScores [simp]: "length (sentenceScores doc) = length (sentences doc)"
  by (simp add: sentenceScores_def Let_def)

lemma sentenceScores_nth:
  "i < length (sentences doc) \<Longrightarrow>
   sentenceScores doc ! i =
     scoreSentence (wordFreq doc) (length (sentences doc)) (sentences doc ! i) i"
  by (simp add: sentenceScores_def Let_def nth_enumerate_eq)

lemma map_index_sentenceScores:
  "map index (sentenceScores doc) = [0..<length (sentences doc)]"
  by (rule nth_equalityI) (simp_all add: sentenceScores_nth)

lemma map_sentence_sentenceScores:
  "map sentence (sentenceScores doc) = map (\<lambda>s. s @ ''.'') (sentences doc)"
  by (rule nth_equalityI) (simp_all add: sentenceScores_nth sentences_nth_trimmed)

lemma sentenceScores_member:
  "x \<in> set (sentenceScores doc) \<Longrightarrow>
   index x < length (sentences doc) \<and> x = sentenceScores doc ! index x
   \<and> sentence x = sentences doc ! index x @ ''.''"
proof -
  assume "x \<in> set (sentenceScores doc)"
  then obtain i where i: "i < length (sentences doc)" and x: "x = sentenceScores doc ! i"
    by (auto simp: in_set_conv_nth)
  then have ix: "index x = i" by (simp add: sentenceScores_nth)
  have "sentence x = sentences doc ! i @ ''.''"
    using i x by (simp add: sentenceScores_nth sentences_nth_trimmed)
  with i x ix show ?thesis by simp
qed

subsection \<open>The selection\<close>

lemma distinct_mset_subset:
  "mset xs \<subseteq># mset ys \<Longrightarrow> distinct ys \<Longrightarrow> distinct xs"
proof -
  assume sub: "mset xs \<subseteq># mset ys" and d: "distinct ys"
  have "count (mset xs) a = (if a \<in> set xs then 1 else 0)" for a
  proof (cases "a \<in> set xs")
    case True
    then have "0 < count (mset xs) a" by simp
    moreover have "count (mset xs) a \<le> count (mset ys) a"
      using sub by (rule mset_subset_eq_count)
    moreover have "count (mset ys) a \<le> 1"
      using d by (simp add: distinct_count_atmost_1)
    ultimately have "count (mset xs) a = 1" by linarith
    then show ?thesis using True by simp
  next
    case False
    then show ?thesis by (simp add: count_eq_zero_iff)
  qed
  then show ?thesis by (simp only: distinct_count_atmost_1) simp
qed

lemma mset_topSentences: "mset (topSentences doc n) \<subseteq># mset (sentenceScores doc)"
proof -
  have "mset (topSentences doc n) =
        mset (slice0 (min n (int (length (sentences doc))))
               (sort_cmp (\<lambda>a b. score b - score a) (sentenceScores doc)))"
    unfolding topSentences_def by (rule mset_sort_cmp)
  also have "\<dots> \<subseteq># mset (sort_cmp (\<lambda>a b. score b - score a) (sentenceScores doc))"
    by (rule mset_slice0)
  also have "\<dots> = mset (sentenceScores doc)" by (rule mset_sort_cmp)
  finally show ?thesis .
qed

lemma set_topSentences: "set (topSentences doc n) \<subseteq> set (sentenceScores doc)"
proof -
  have "set_mset (mset (topSentences doc n)) \<subseteq> set_mset (mset (sentenceScores doc))"
    using mset_topSentences by (rule set_mset_mono)
  then show ?thesis by simp
qed

lemma distinct_index_topSentences: "distinct (map index (topSentences doc n))"
proof -
  have "image_mset index (mset (topSentences doc n))
        \<subseteq># image_mset index (mset (sentenceScores doc))"
    using mset_topSentences by (rule image_mset_subseteq_mono)
  then have "mset (map index (topSentences doc n)) \<subseteq># mset (map index (sentenceScores doc))"
    by simp
  moreover have "distinct (map index (sentenceScores doc))"
    by (simp add: map_index_sentenceScores)
  ultimately show ?thesis by (rule distinct_mset_subset)
qed

lemma sorted_index_topSentences: "sorted_wrt (<) (map index (topSentences doc n))"
proof -
  have "sorted (map index (topSentences doc n))"
    unfolding topSentences_def by (rule sorted_sort_cmp_index)
  then show ?thesis
    using distinct_index_topSentences by (simp add: strict_sorted_iff)
qed

lemma length_topSentences:
  "length (topSentences doc n) =
     (if n < 0 then nat (int (length (sentences doc)) + n)
      else min (nat n) (length (sentences doc)))"
proof -
  have "length (topSentences doc n) =
        length (slice0 (min n (int (length (sentences doc))))
                  (sort_cmp (\<lambda>a b. score b - score a) (sentenceScores doc)))"
    unfolding topSentences_def by (rule length_sort_cmp)
  also have "\<dots> = (if min n (int (length (sentences doc))) < 0
                     then nat (int (length (sentences doc)) + min n (int (length (sentences doc))))
                     else min (nat (min n (int (length (sentences doc))))) (length (sentences doc)))"
    by (simp only: length_slice0 length_sort_cmp length_sentenceScores)
  also have "\<dots> = (if n < 0 then nat (int (length (sentences doc)) + n)
                     else min (nat n) (length (sentences doc)))"
    by (cases "n < 0") auto
  finally show ?thesis .
qed

subsection \<open>The rendered text\<close>

lemma count_joinWith_space:
  "count_list (joinWith '' '' xs) CHR ''.'' = sum_list (map (\<lambda>x. count_list x CHR ''.'') xs)"
  by (induction "'' ''" xs rule: joinWith.induct) simp_all

lemma topSentences_member:
  "x \<in> set (topSentences doc n) \<Longrightarrow>
   index x < length (sentences doc) \<and> sentence x = sentences doc ! index x @ ''.''"
proof -
  assume "x \<in> set (topSentences doc n)"
  then have "x \<in> set (sentenceScores doc)" using set_topSentences by blast
  then show ?thesis using sentenceScores_member by blast
qed

lemma one_period_per_sentence:
  "x \<in> set (topSentences doc n) \<Longrightarrow> count_list (sentence x) CHR ''.'' = 1"
proof -
  assume x: "x \<in> set (topSentences doc n)"
  let ?s = "sentences doc ! index x"
  from x have i: "index x < length (sentences doc)" and sx: "sentence x = ?s @ ''.''"
    using topSentences_member by blast+
  from i have "?s \<in> set (sentences doc)" by (rule nth_mem)
  then have "CHR ''.'' \<notin> set ?s"
    using sentences_no_terminator [of ?s doc "CHR ''.''"] by (auto simp: isTerminator_def)
  then have "count_list ?s CHR ''.'' = 0" by (simp add: count_list_0_iff)
  then show ?thesis unfolding sx by simp
qed

lemma periods_summarizedText:
  "count_list (summarizedText doc n) CHR ''.'' = length (topSentences doc n)"
proof -
  have "sum_list (map (\<lambda>x. count_list (sentence x) CHR ''.'') (topSentences doc n))
        = sum_list (map (\<lambda>x. 1) (topSentences doc n))"
    by (rule arg_cong [where f = sum_list], rule map_cong [OF refl])
       (rule one_period_per_sentence)
  then show ?thesis
    unfolding summarizedText_def count_joinWith_space
    by (simp add: comp_def sum_list_triv)
qed

lemma summarizedText_empty_iff:
  "summarizedText doc n = [] \<longleftrightarrow> topSentences doc n = []"
proof
  assume "summarizedText doc n = []"
  then have "count_list (summarizedText doc n) CHR ''.'' = 0" by simp
  then show "topSentences doc n = []" by (simp only: periods_summarizedText length_0_conv)
next
  assume "topSentences doc n = []"
  then show "summarizedText doc n = []" by (simp add: summarizedText_def)
qed

lemma summarizedText_by_index:
  "summarizedText doc n =
     joinWith '' '' (map (\<lambda>i. sentences doc ! i @ ''.'') (map index (topSentences doc n)))"
proof -
  have h: "map sentence (topSentences doc n) =
        map (\<lambda>x. sentences doc ! index x @ ''.'') (topSentences doc n)"
    by (rule map_cong [OF refl]) (simp add: topSentences_member)
  show ?thesis unfolding summarizedText_def h by (simp add: comp_def)
qed

subsection \<open>The handler and the callback\<close>

lemma summarizeText_blank:
  "trim (inputText st) = [] \<Longrightarrow> summarizeText st = st\<lparr> toasts := toasts st @ [NoText] \<rparr>"
  by (simp add: summarizeText_def)

lemma summarize_blank:
  "trim doc = [] \<Longrightarrow> timers st = [] \<Longrightarrow>
   summarize doc n st =
     st\<lparr> inputText := doc, summaryLength0 := n, toasts := toasts st @ [NoText] \<rparr>"
  by (simp add: summarize_def summarizeText_def fireTimer_def)

lemma summarize_nonblank:
  "trim doc \<noteq> [] \<Longrightarrow> timers st = [] \<Longrightarrow>
   summarize doc n st =
     timeoutCallback doc n
       (st\<lparr> inputText := doc, summaryLength0 := n, isProcessing := True, timers := [] \<rparr>)"
  by (simp add: summarize_def summarizeText_def fireTimer_def)

lemma summary_timeoutCallback:
  "summary (timeoutCallback doc n st) =
     (if sentences doc = [] then noValidSentences
      else if topSentences doc n = [] then couldNotGenerate
      else summarizedText doc n)"
  by (simp add: timeoutCallback_def Let_def summarizedText_empty_iff)


subsection \<open>The frequency table and the scores\<close>

lemma fold_bump:
  "fold (\<lambda>word m. m(word \<mapsto> getOr0 m word + 1)) ws m0 w =
     (if w \<in> set ws then Some (getOr0 m0 w + count_list ws w) else m0 w)"
proof (induction ws arbitrary: m0)
  case Nil
  show ?case by simp
next
  case (Cons a ws)
  let ?m1 = "m0(a \<mapsto> getOr0 m0 a + 1)"
  have "fold (\<lambda>word m. m(word \<mapsto> getOr0 m word + 1)) (a # ws) m0 w =
        fold (\<lambda>word m. m(word \<mapsto> getOr0 m word + 1)) ws ?m1 w"
    by simp
  also have "\<dots> = (if w \<in> set ws then Some (getOr0 ?m1 w + count_list ws w) else ?m1 w)"
    by (rule Cons.IH)
  also have "\<dots> = (if w \<in> set (a # ws) then Some (getOr0 m0 w + count_list (a # ws) w)
                     else m0 w)"
    by (cases "a = w") (simp_all add: getOr0_def)
  finally show ?case .
qed

lemma wordFreq_lookup:
  "wordFreq doc w =
     (if w \<in> set (words doc) then Some (count_list (words doc) w) else None)"
  unfolding wordFreq_def fold_bump by (simp add: getOr0_def)

lemma getOr0_wordFreq: "getOr0 (wordFreq doc) w = count_list (words doc) w"
  by (simp add: getOr0_def wordFreq_lookup count_list_0_iff)

lemma fold_add_counts:
  "fold (\<lambda>word score. score + of_nat (f word)) ws (a::rat) = a + of_nat (sum_list (map f ws))"
  by (induction ws arbitrary: a) simp_all

lemma score_scoreSentence:
  "score (scoreSentence (wordFreq doc) len s i) =
     (if qualifyingWords s = [] then 0
      else (if of_nat i < of_nat len * (3 / 10 :: rat) then 3 / 2 else 1)
           * (of_nat (sum_list (map (count_list (words doc)) (qualifyingWords s)))
              / of_nat (length (qualifyingWords s))))"
proof -
  have "(\<lambda>word. getOr0 (wordFreq doc) word) = count_list (words doc)"
    by (rule ext) (rule getOr0_wordFreq)
  then show ?thesis
    by (simp add: scoreSentence_def Let_def fold_add_counts)
qed

subsection \<open>The example documents, evaluated\<close>

lemma sentences_doc_single: "sentences doc_single = [''The quick brown foxes jump'']"
  by code_simp

lemma sentences_doc_pair:
  "sentences doc_pair = [''Alpha beta gamma delta'', ''Foxes foxes foxes foxes'']"
  by code_simp

lemma sentences_doc_twice: "sentences doc_twice = [''Hello world again'', ''Hello world again'']"
  by code_simp

lemma sentences_doc_three:
  "sentences doc_three =
     [''Tigers hunt alone at night'', ''Do tigers swim well'', ''Tigers swim very well'']"
  by code_simp

lemma sentences_doc_short: "sentences doc_short = []"
  by code_simp

lemma trim_doc_short: "trim doc_short \<noteq> []"
  by code_simp

lemma words_doc_single: "words doc_single = [''quick'', ''brown'', ''foxes'', ''jump'']"
  by code_simp

lemma words_doc_pair:
  "words doc_pair =
     [''alpha'', ''beta'', ''gamma'', ''delta'', ''foxes'', ''foxes'', ''foxes'', ''foxes'']"
  by code_simp

lemma qualifyingWords_single:
  "qualifyingWords ''The quick brown foxes jump'' = [''quick'', ''brown'', ''foxes'', ''jump'']"
  by code_simp

lemma qualifyingWords_pair0:
  "qualifyingWords ''Alpha beta gamma delta'' = [''alpha'', ''beta'', ''gamma'', ''delta'']"
  by code_simp

lemma qualifyingWords_pair1:
  "qualifyingWords ''Foxes foxes foxes foxes'' = [''foxes'', ''foxes'', ''foxes'', ''foxes'']"
  by code_simp

lemma map_score_sentenceScores:
  "map score (sentenceScores doc) =
     map (\<lambda>(i, s). score (scoreSentence (wordFreq doc) (length (sentences doc)) s i))
       (enumerate 0 (sentences doc))"
  by (simp add: sentenceScores_def Let_def comp_def split_def)

lemma scores_doc_single: "map score (sentenceScores doc_single) = [3 / 2]"
  by (simp add: map_score_sentenceScores score_scoreSentence sentences_doc_single
        words_doc_single qualifyingWords_single)

lemma scores_doc_pair: "map score (sentenceScores doc_pair) = [3 / 2, 4]"
  by (simp add: map_score_sentenceScores score_scoreSentence sentences_doc_pair
        words_doc_pair qualifyingWords_pair0 qualifyingWords_pair1)

lemma scoreSentence_wordFreq:
  "scoreSentence (wordFreq doc) len s i =
     \<lparr> sentence = trim s @ ''.'',
       score = (if qualifyingWords s = [] then 0
                else (if of_nat i < of_nat len * (3 / 10 :: rat) then 3 / 2 else 1)
                     * (of_nat (sum_list (map (count_list (words doc)) (qualifyingWords s)))
                        / of_nat (length (qualifyingWords s)))),
       index = i \<rparr>"
proof -
  have "(\<lambda>word. getOr0 (wordFreq doc) word) = count_list (words doc)"
    by (rule ext) (rule getOr0_wordFreq)
  then show ?thesis
    by (simp add: scoreSentence_def Let_def fold_add_counts)
qed

lemma trim_pair0: "trim ''Alpha beta gamma delta'' = ''Alpha beta gamma delta''"
  using sentences_nth_trimmed [of 0 doc_pair] by (simp add: sentences_doc_pair)

lemma trim_pair1: "trim ''Foxes foxes foxes foxes'' = ''Foxes foxes foxes foxes''"
  using sentences_nth_trimmed [of 1 doc_pair] by (simp add: sentences_doc_pair)

lemma sentenceScores_doc_pair:
  "sentenceScores doc_pair =
     [\<lparr> sentence = ''Alpha beta gamma delta.'', score = 3 / 2, index = 0 \<rparr>,
      \<lparr> sentence = ''Foxes foxes foxes foxes.'', score = 4, index = 1 \<rparr>]"
  by (simp add: sentenceScores_def Let_def scoreSentence_wordFreq sentences_doc_pair
        words_doc_pair qualifyingWords_pair0 qualifyingWords_pair1 trim_pair0 trim_pair1)

lemma ranking_doc_pair:
  "sort_cmp (\<lambda>a b. score b - score a) (sentenceScores doc_pair) =
     [\<lparr> sentence = ''Foxes foxes foxes foxes.'', score = 4, index = 1 \<rparr>,
      \<lparr> sentence = ''Alpha beta gamma delta.'', score = 3 / 2, index = 0 \<rparr>]"
  by (simp add: sentenceScores_doc_pair sort_cmp_def)

lemma topSentences_doc_pair:
  "topSentences doc_pair 2 =
     [\<lparr> sentence = ''Alpha beta gamma delta.'', score = 3 / 2, index = 0 \<rparr>,
      \<lparr> sentence = ''Foxes foxes foxes foxes.'', score = 4, index = 1 \<rparr>]"
  unfolding topSentences_def ranking_doc_pair
  by (simp add: sentences_doc_pair slice0_def sort_cmp_def)

lemma topSentences_nonempty:
  "1 \<le> n \<Longrightarrow> sentences doc \<noteq> [] \<Longrightarrow> topSentences doc n \<noteq> []"
proof -
  assume n: "1 \<le> n" and "sentences doc \<noteq> []"
  then have "0 < length (sentences doc)" by simp
  with n have "0 < length (topSentences doc n)" by (simp add: length_topSentences)
  then show ?thesis by simp
qed

lemma sentences_nonblank: "sentences doc \<noteq> [] \<Longrightarrow> trim doc \<noteq> []"
  using sentences_blank by blast

lemma summary_summarize:
  assumes "timers st = []" and "sentences doc \<noteq> []"
  shows "summary (summarize doc n st) =
           (if topSentences doc n = [] then couldNotGenerate else summarizedText doc n)"
proof -
  have "trim doc \<noteq> []" using assms(2) by (rule sentences_nonblank)
  then show ?thesis
    using assms by (simp add: summarize_nonblank summary_timeoutCallback)
qed

subsection \<open>Documents with a single eligible sentence\<close>

lemma summarizedText_single:
  assumes "1 \<le> n" and "sentences doc = [s]"
  shows "summarizedText doc n = s @ ''.''"
proof -
  have "length (topSentences doc n) = 1"
    using assms by (simp add: length_topSentences)
  then obtain x where top: "topSentences doc n = [x]"
    by (cases "topSentences doc n") auto
  then have "x \<in> set (topSentences doc n)" by simp
  then have "index x < length (sentences doc)"
    and "sentence x = sentences doc ! index x @ ''.''"
    using topSentences_member by blast+
  then have "sentence x = s @ ''.''" using assms(2) by simp
  then show ?thesis by (simp add: summarizedText_def top)
qed

subsection \<open>The specification's tokens, table and score\<close>

lemma spec_tokenize_eq: "spec_tokenize text = qualifyingWords text"
proof -
  have f: "(\<lambda>t::string. \<not> length t \<le> 3) = (\<lambda>word. length word > 3)"
    by (rule ext) (simp add: not_le)
  have g: "(\<lambda>c. if \<not> isWordChar c \<and> \<not> isWhiteSpace c then CHR '' '' else c) =
           (\<lambda>c. if isWordChar c \<or> isWhiteSpace c then c else CHR '' '')"
    by (rule ext) simp
  show ?thesis
    unfolding spec_tokenize_def qualifyingWords_def toLowerCase_def f g by (rule refl)
qed

lemma spec_frequency_eq: "spec_frequency doc w = getOr0 (wordFreq doc) w"
  by (simp add: spec_frequency_def spec_tokenize_eq getOr0_wordFreq words_def)

lemma score_sentenceScores:
  assumes "i < length (sentences doc)"
  shows "score (sentenceScores doc ! i) =
           (if of_nat i < of_nat (length (sentences doc)) * (3 / 10 :: rat) then 3 / 2 else 1)
           * spec_score doc (sentences doc ! i)"
proof -
  have "spec_frequency doc = count_list (words doc)"
    by (rule ext) (simp add: spec_frequency_def spec_tokenize_eq words_def)
  then show ?thesis
    using assms
    by (simp add: sentenceScores_nth score_scoreSentence spec_score_def spec_tokenize_eq)
qed

lemma spec_score_no_token: "spec_tokenize s = [] \<Longrightarrow> spec_score doc s = 0"
  by (simp add: spec_score_def)

lemma qualifyingWords_tiny: "qualifyingWords ''It is as we do so'' = []"
  by code_simp

lemma sentences_doc_tiny: "sentences doc_tiny = [''It is as we do so'']"
  by code_simp

lemma spec_score_pair1: "spec_score doc_pair ''Foxes foxes foxes foxes'' = 4"
  by (simp add: spec_score_def spec_frequency_def spec_tokenize_eq qualifyingWords_pair1
        words_doc_pair [unfolded words_def])

lemma spec_score_single: "spec_score doc_single ''The quick brown foxes jump'' = 1"
  by (simp add: spec_score_def spec_frequency_def spec_tokenize_eq qualifyingWords_single
        words_doc_single [unfolded words_def])

subsection \<open>The pieces of a split\<close>

lemma split_on_nonempty: "split_on cls s \<noteq> []"
proof (cases "dropWhile (\<lambda>c. \<not> cls c) s = []")
  case True
  then have "split_on cls s = [s]" by (rule split_on_last)
  then show ?thesis by simp
next
  case False
  then have "split_on cls s =
     takeWhile (\<lambda>c. \<not> cls c) s # split_on cls (dropWhile cls (dropWhile (\<lambda>c. \<not> cls c) s))"
    by (rule split_on_more)
  then show ?thesis by simp
qed

lemma takeWhile_nonempty: "xs \<noteq> [] \<Longrightarrow> P (hd xs) \<Longrightarrow> takeWhile P xs \<noteq> []"
  by (cases xs) simp_all

lemma split_on_inner_nonempty:
  "split_on cls s = p # ps \<Longrightarrow> q \<in> set (butlast ps) \<Longrightarrow> q \<noteq> []"
proof (induction cls s arbitrary: p ps rule: split_on.induct)
  case (1 cls s)
  let ?r = "dropWhile (\<lambda>c. \<not> cls c) s"
  show ?case
  proof (cases "?r = []")
    case True
    then have "split_on cls s = [s]" by (rule split_on_last)
    then have "ps = []" using "1.prems"(1) by simp
    then show ?thesis using "1.prems"(2) by simp
  next
    case False
    define s' where "s' = dropWhile cls ?r"
    have "split_on cls s = takeWhile (\<lambda>c. \<not> cls c) s # split_on cls s'"
      unfolding s'_def using False by (rule split_on_more)
    then have ps: "ps = split_on cls s'"
      using "1.prems"(1) by simp
    show ?thesis
    proof (cases "dropWhile (\<lambda>c. \<not> cls c) s' = []")
      case True
      then have "split_on cls s' = [s']" by (rule split_on_last)
      then have "butlast ps = []" unfolding ps by simp
      then show ?thesis using "1.prems"(2) by simp
    next
      case more: False
      define p' where "p' = takeWhile (\<lambda>c. \<not> cls c) s'"
      define ps' where "ps' = split_on cls (dropWhile cls (dropWhile (\<lambda>c. \<not> cls c) s'))"
      have sp: "split_on cls s' = p' # ps'"
        unfolding p'_def ps'_def using more by (rule split_on_more)
      have ne: "ps' \<noteq> []" unfolding ps'_def by (rule split_on_nonempty)
      have "q \<in> set (butlast (p' # ps'))"
        using "1.prems"(2) unfolding ps sp .
      then have "q \<in> set (p' # butlast ps')" using ne by simp
      then consider "q = p'" | "q \<in> set (butlast ps')" by auto
      then show ?thesis
      proof cases
        case 1
        have s'ne: "s' \<noteq> []"
        proof
          assume "s' = []"
          then have "dropWhile (\<lambda>c. \<not> cls c) s' = []" by simp
          with more show False by (rule notE)
        qed
        then have "\<not> cls (hd s')" unfolding s'_def by (rule hd_dropWhile)
        with s'ne have "p' \<noteq> []" unfolding p'_def by (rule takeWhile_nonempty)
        with 1 show ?thesis by simp
      next
        case 2
        have "split_on cls (dropWhile cls ?r) = p' # ps'" using sp unfolding s'_def .
        from "1.IH" [OF refl refl False this 2] show ?thesis .
      qed
    qed
  qed
qed

lemma split_doc_three:
  "split_on isTerminator doc_three =
     [''Tigers hunt alone at night'', '' Do tigers swim well'', '' Tigers swim very well'', []]"
  by code_simp

subsection \<open>Selections as subsequences\<close>

lemma subseq_map_nth:
  "sorted_wrt (<) js \<Longrightarrow> \<forall>j\<in>set js. j < length ys \<Longrightarrow> subseq (map (nth ys) js) ys"
proof (induction ys arbitrary: js rule: rev_induct)
  case Nil
  from Nil(2) have "js = []" by (cases js) auto
  then show ?case by simp
next
  case (snoc y ys)
  show ?case
  proof (cases js rule: rev_cases)
    case Nil
    then show ?thesis by simp
  next
    case (snoc ks k)
    have sk: "sorted_wrt (<) ks" and below: "\<forall>x\<in>set ks. x < k"
      using snoc.prems(1) unfolding snoc by (simp_all add: sorted_wrt_append)
    have k: "k \<le> length ys" using snoc.prems(2) unfolding snoc by simp
    show ?thesis
    proof (cases "k = length ys")
      case True
      have in_range: "\<forall>j\<in>set ks. j < length ys" using below True by simp
      then have eq: "map (nth (ys @ [y])) ks = map (nth ys) ks"
        by (simp add: nth_append)
      have "subseq (map (nth ys) ks) ys"
        using sk in_range by (rule snoc.IH)
      then have "subseq (map (nth ys) ks @ [y]) (ys @ [y])" by simp
      then show ?thesis
        unfolding snoc by (simp add: True eq)
    next
      case False
      then have "k < length ys" using k by simp
      then have in_range: "\<forall>j\<in>set js. j < length ys"
        using below unfolding snoc by auto
      then have eq: "map (nth (ys @ [y])) js = map (nth ys) js"
        by (simp add: nth_append)
      have "subseq (map (nth ys) js) ys"
        using snoc.prems(1) in_range by (rule snoc.IH)
      then have "subseq (map (nth ys) js) (ys @ [y])" by (rule list_emb_prefix)
      then show ?thesis unfolding eq .
    qed
  qed
qed

lemma subseq_distinct: "subseq xs ys \<Longrightarrow> distinct ys \<Longrightarrow> distinct xs"
proof -
  assume "subseq xs ys" and "distinct ys"
  then have "xs \<in> set (subseqs ys)" by simp
  then show ?thesis using \<open>distinct ys\<close> by (rule subseqs_distinctD)
qed

lemma subseq_topSentences:
  "subseq (map sentence (topSentences doc n)) (map (\<lambda>s. s @ ''.'') (sentences doc))"
proof -
  let ?pool = "map (\<lambda>s. s @ ''.'') (sentences doc)"
  let ?js = "map index (topSentences doc n)"
  have range: "\<forall>j\<in>set ?js. j < length ?pool"
    using topSentences_member [of _ doc n] by auto
  have "map sentence (topSentences doc n) = map (\<lambda>x. ?pool ! index x) (topSentences doc n)"
    by (rule map_cong [OF refl]) (simp add: topSentences_member)
  then have eq: "map sentence (topSentences doc n) = map (nth ?pool) ?js"
    by (simp add: comp_def)
  have "subseq (map (nth ?pool) ?js) ?pool"
    using sorted_index_topSentences range by (rule subseq_map_nth)
  then show ?thesis unfolding eq .
qed

lemma distinct_topSentences_text:
  assumes "distinct (sentences doc)"
  shows "distinct (map sentence (topSentences doc n))"
proof -
  have "inj_on (\<lambda>s. s @ ''.'') (set (sentences doc))" by (rule inj_onI) simp
  with assms have "distinct (map (\<lambda>s. s @ ''.'') (sentences doc))"
    by (simp add: distinct_map)
  with subseq_topSentences show ?thesis by (rule subseq_distinct)
qed

lemma sentences_from_split:
  "s \<in> set (sentences doc) \<Longrightarrow> \<exists>p\<in>set (split_on isTerminator doc). s = trim p"
  unfolding sentences_def by auto

lemma topSentences_from_pool:
  assumes "x \<in> set (topSentences doc n)"
  shows "\<exists>s\<in>set (sentences doc). sentence x = s @ ''.'' \<and> CHR ''.'' \<notin> set s"
proof -
  let ?s = "sentences doc ! index x"
  from assms have i: "index x < length (sentences doc)" and sx: "sentence x = ?s @ ''.''"
    using topSentences_member by blast+
  from i have mem: "?s \<in> set (sentences doc)" by (rule nth_mem)
  then have "CHR ''.'' \<notin> set ?s"
    using sentences_no_terminator [of ?s doc "CHR ''.''"] by (auto simp: isTerminator_def)
  with mem sx show ?thesis by blast
qed

subsection \<open>Documents without an eligible sentence\<close>

lemma summarize_no_sentences:
  assumes "timers st = []" and "trim doc \<noteq> []" and "sentences doc = []"
  shows "summarize doc n st =
           st\<lparr> inputText := doc, summaryLength0 := n, isProcessing := False, timers := [],
               summary := noValidSentences \<rparr>"
  using assms by (simp add: summarize_nonblank timeoutCallback_def)

subsection \<open>The requested number in the reachable states\<close>








section \<open>The claims\<close>

text \<open>
  C1. The table built by the loop over \<^verbatim>\<open>words\<close> counts, for every token, its occurrences
  among the tokens of the whole document, where the tokens are obtained by lowercasing,
  replacing each character that is neither a word character nor white space by a space,
  splitting on white space and dropping the tokens of length at most 3. The score stored
  for an eligible sentence is its length-normalized score (the table's counts summed over
  the sentence's own tokens, divided by the number of these tokens) times the position
  factor, which is 1 or 1.5; a sentence without tokens has score 0.
\<close>

theorem frequency_table_and_scores:
  "words doc = spec_tokenize doc
   \<and> (\<forall>w. getOr0 (wordFreq doc) w = spec_frequency doc w)
   \<and> dom (wordFreq doc) = set (spec_tokenize doc)
   \<and> (\<forall>i<length (sentences doc).
         score (sentenceScores doc ! i) =
           (if of_nat i < of_nat (length (sentences doc)) * (3 / 10 :: rat) then 3 / 2 else 1)
           * spec_score doc (sentences doc ! i))
   \<and> (\<forall>i<length (sentences doc).
         spec_tokenize (sentences doc ! i) = [] \<longrightarrow> score (sentenceScores doc ! i) = 0)"
proof -
  have tok: "words doc = spec_tokenize doc"
    by (simp add: words_def spec_tokenize_eq)
  have tab: "\<forall>w. getOr0 (wordFreq doc) w = spec_frequency doc w"
    by (simp add: spec_frequency_eq)
  have "dom (wordFreq doc) = set (words doc)"
    by (auto simp: wordFreq_lookup dom_def)
  then have keys: "dom (wordFreq doc) = set (spec_tokenize doc)"
    by (simp only: tok)
  have sc: "\<forall>i<length (sentences doc).
         score (sentenceScores doc ! i) =
           (if of_nat i < of_nat (length (sentences doc)) * (3 / 10 :: rat) then 3 / 2 else 1)
           * spec_score doc (sentences doc ! i)"
    using score_sentenceScores by blast
  have zero: "\<forall>i<length (sentences doc).
         spec_tokenize (sentences doc ! i) = [] \<longrightarrow> score (sentenceScores doc ! i) = 0"
    by (simp add: score_sentenceScores spec_score_no_token)
  from tok tab keys sc zero show ?thesis by blast
qed

theorem frequency_table_and_scores_witness:
  "1 < length (sentences doc_pair)
   \<and> spec_score doc_pair (sentences doc_pair ! 1) = 4
   \<and> score (sentenceScores doc_pair ! 1) = 4
   \<and> 0 < length (sentences doc_tiny)
   \<and> spec_tokenize (sentences doc_tiny ! 0) = []
   \<and> score (sentenceScores doc_tiny ! 0) = 0"
proof -
  have a: "1 < length (sentences doc_pair)" by (simp add: sentences_doc_pair)
  have b: "0 < length (sentences doc_tiny)" by (simp add: sentences_doc_tiny)
  have c: "spec_tokenize (sentences doc_tiny ! 0) = []"
    by (simp add: sentences_doc_tiny spec_tokenize_eq qualifyingWords_tiny)
  have d: "spec_score doc_pair (sentences doc_pair ! 1) = 4"
    by (simp add: sentences_doc_pair spec_score_pair1)
  have "\<forall>i<length (sentences doc_pair).
         score (sentenceScores doc_pair ! i) =
           (if of_nat i < of_nat (length (sentences doc_pair)) * (3 / 10 :: rat) then 3 / 2 else 1)
           * spec_score doc_pair (sentences doc_pair ! i)"
    using frequency_table_and_scores [of doc_pair] by (elim conjE)
  then have "score (sentenceScores doc_pair ! 1) =
           (if of_nat 1 < of_nat (length (sentences doc_pair)) * (3 / 10 :: rat) then 3 / 2 else 1)
           * spec_score doc_pair (sentences doc_pair ! 1)"
    using a by blast
  then have e: "score (sentenceScores doc_pair ! 1) = 4"
    unfolding d by (simp add: sentences_doc_pair)
  have "\<forall>i<length (sentences doc_tiny).
         spec_tokenize (sentences doc_tiny ! i) = [] \<longrightarrow> score (sentenceScores doc_tiny ! i) = 0"
    using frequency_table_and_scores [of doc_tiny] by (elim conjE)
  then have f: "score (sentenceScores doc_tiny ! 0) = 0"
    using b c by blast
  from a b c d e f show ?thesis by blast
qed

text \<open>
  C2. The sentence pool is the list of fragments obtained by splitting the document at the
  runs of \<^verbatim>\<open>.\<close>, \<^verbatim>\<open>!\<close> and \<^verbatim>\<open>?\<close> (the fragments hold none of these characters, together
  they are the document without them, and a run of several terminators is one boundary:
  no fragment but the first and the last is empty), trimmed, without those of trimmed length
  at most 10. The survivors keep their order, and the scored entries carry the indices
  0, 1, ... of the surviving list together with the fragment and its period.
\<close>

theorem sentence_pool:
  "sentences doc = filter (\<lambda>s. \<not> length s \<le> 10) (map trim (split_on isTerminator doc))
   \<and> concat (split_on isTerminator doc) = filter (\<lambda>c. \<not> isTerminator c) doc
   \<and> (\<forall>p\<in>set (split_on isTerminator doc). \<forall>c\<in>set p. \<not> isTerminator c)
   \<and> (\<forall>q\<in>set (butlast (tl (split_on isTerminator doc))). q \<noteq> [])
   \<and> subseq (sentences doc) (map trim (split_on isTerminator doc))
   \<and> map index (sentenceScores doc) = [0..<length (sentences doc)]
   \<and> map sentence (sentenceScores doc) = map (\<lambda>s. s @ ''.'') (sentences doc)"
proof -
  have "(\<lambda>s::string. \<not> length s \<le> 10) = (\<lambda>s. length s > 10)"
    by (rule ext) (simp add: not_le)
  then have a: "sentences doc =
      filter (\<lambda>s. \<not> length s \<le> 10) (map trim (split_on isTerminator doc))"
    by (simp add: sentences_def)
  have b: "concat (split_on isTerminator doc) = filter (\<lambda>c. \<not> isTerminator c) doc"
    by (rule concat_split_on)
  have c: "\<forall>p\<in>set (split_on isTerminator doc). \<forall>c\<in>set p. \<not> isTerminator c"
    using split_on_no_sep by blast
  have d: "\<forall>q\<in>set (butlast (tl (split_on isTerminator doc))). q \<noteq> []"
  proof (cases "split_on isTerminator doc")
    case Nil
    then show ?thesis by simp
  next
    case (Cons p ps)
    then show ?thesis using split_on_inner_nonempty [of isTerminator doc p ps] by auto
  qed
  have e: "subseq (sentences doc) (map trim (split_on isTerminator doc))"
    unfolding sentences_def by (rule subseq_filter_left)
  have f: "map index (sentenceScores doc) = [0..<length (sentences doc)]"
    by (rule map_index_sentenceScores)
  have g: "map sentence (sentenceScores doc) = map (\<lambda>s. s @ ''.'') (sentences doc)"
    by (rule map_sentence_sentenceScores)
  show ?thesis by (intro conjI a b c d e f g)
qed

theorem sentence_pool_witness:
  "set (split_on isTerminator doc_three) \<noteq> {}
   \<and> set (butlast (tl (split_on isTerminator doc_three))) \<noteq> {}
   \<and> sentences doc_three =
       [''Tigers hunt alone at night'', ''Do tigers swim well'', ''Tigers swim very well'']
   \<and> map index (sentenceScores doc_three) = [0, 1, 2]
   \<and> map sentence (sentenceScores doc_three) =
       [''Tigers hunt alone at night.'', ''Do tigers swim well.'', ''Tigers swim very well.'']"
proof -
  have "[0..<3] = [0, 1, 2]" by (simp add: upt_rec)
  then show ?thesis
    using sentence_pool [of doc_three]
    by (simp add: split_doc_three sentences_doc_three)
qed

text \<open>
  C3, as stated, fails: the cutoff is not rounded down. A document with one eligible
  sentence has the cutoff 0.3, whose floor is 0, so no index is below the floor; yet the
  sentence at index 0 gets the factor 1.5.
\<close>

theorem position_bonus_counterexample:
  "length (sentences doc_single) = 1
   \<and> \<not> (0::int) < \<lfloor>(3 / 10 :: rat) * of_nat (length (sentences doc_single))\<rfloor>
   \<and> spec_score doc_single (sentences doc_single ! 0) = 1
   \<and> score (sentenceScores doc_single ! 0) = 3 / 2"
proof -
  have a: "length (sentences doc_single) = 1" by (simp add: sentences_doc_single)
  have b: "\<not> (0::int) < \<lfloor>(3 / 10 :: rat) * of_nat (length (sentences doc_single))\<rfloor>"
    unfolding a by simp
  have c: "spec_score doc_single (sentences doc_single ! 0) = 1"
    by (simp add: sentences_doc_single spec_score_single)
  have "map score (sentenceScores doc_single) ! 0 = 3 / 2"
    by (simp add: scores_doc_single)
  then have d: "score (sentenceScores doc_single ! 0) = 3 / 2"
    by (simp add: a)
  show ?thesis by (intro conjI a b c d)
qed

text \<open>
  C3, amended. With \<open>totalSentences\<close> eligible sentences, the length-normalized score of
  the sentence at index \<open>i\<close> of the pool is multiplied by 1.5 exactly when \<open>i\<close> is strictly
  less than 0.3 \<times> \<open>totalSentences\<close>, the product not being rounded (equivalently: when \<open>i\<close>
  is below that product rounded up), and is left unchanged for every other sentence.
\<close>

theorem position_bonus:
  assumes "i < length (sentences doc)"
  shows "score (sentenceScores doc ! i) =
           (if of_nat i < (3 / 10 :: rat) * of_nat (length (sentences doc))
            then 3 / 2 * spec_score doc (sentences doc ! i)
            else spec_score doc (sentences doc ! i))
       \<and> (of_nat i < (3 / 10 :: rat) * of_nat (length (sentences doc))
            \<longleftrightarrow> int i < \<lceil>(3 / 10 :: rat) * of_nat (length (sentences doc))\<rceil>)"
proof -
  have a: "score (sentenceScores doc ! i) =
           (if of_nat i < (3 / 10 :: rat) * of_nat (length (sentences doc))
            then 3 / 2 * spec_score doc (sentences doc ! i)
            else spec_score doc (sentences doc ! i))"
    using score_sentenceScores [OF assms] by (simp add: mult.commute)
  have b: "of_nat i < (3 / 10 :: rat) * of_nat (length (sentences doc))
            \<longleftrightarrow> int i < \<lceil>(3 / 10 :: rat) * of_nat (length (sentences doc))\<rceil>"
    by (simp add: less_ceiling_iff)
  show ?thesis by (intro conjI a b)
qed

theorem position_bonus_witness:
  "0 < length (sentences doc_three) \<and> 1 < length (sentences doc_three)
   \<and> score (sentenceScores doc_three ! 0) = 3 / 2 * spec_score doc_three (sentences doc_three ! 0)
   \<and> score (sentenceScores doc_three ! 1) = spec_score doc_three (sentences doc_three ! 1)"
proof -
  have a: "0 < length (sentences doc_three)" and b: "1 < length (sentences doc_three)"
    by (simp_all add: sentences_doc_three)
  have c: "score (sentenceScores doc_three ! 0)
           = 3 / 2 * spec_score doc_three (sentences doc_three ! 0)"
    using position_bonus [OF a] by (simp add: sentences_doc_three)
  have d: "score (sentenceScores doc_three ! 1) = spec_score doc_three (sentences doc_three ! 1)"
    using position_bonus [OF b] by (simp add: sentences_doc_three)
  show ?thesis by (intro conjI a b c d)
qed

text \<open>
  C4. For a document with at least one eligible sentence and a requested number of at least
  1, the summary holds exactly the smaller of the requested number and the number of
  eligible sentences: that many selected sentences, and that many periods in the rendered
  text. With three eligible sentences a request for 1000 gives three; with a single eligible
  sentence every request gives that sentence with its period, which is also the text the
  component displays.
\<close>

theorem summary_length_clamped:
  assumes "1 \<le> n" and "sentences doc \<noteq> []"
  shows "length (topSentences doc n) = min (nat n) (length (sentences doc))
       \<and> count_list (summarizedText doc n) CHR ''.'' = min (nat n) (length (sentences doc))
       \<and> (length (sentences doc) = 3 \<longrightarrow> length (topSentences doc 1000) = 3)
       \<and> (\<forall>s. sentences doc = [s] \<longrightarrow> summarizedText doc n = s @ ''.'')
       \<and> (timers st = [] \<longrightarrow> summary (summarize doc n st) = summarizedText doc n)"
proof -
  have len: "length (topSentences doc n) = min (nat n) (length (sentences doc))"
    using assms(1) by (simp add: length_topSentences)
  have per: "count_list (summarizedText doc n) CHR ''.'' = min (nat n) (length (sentences doc))"
    unfolding periods_summarizedText by (rule len)
  have three: "length (sentences doc) = 3 \<longrightarrow> length (topSentences doc 1000) = 3"
    by (simp add: length_topSentences)
  have single: "\<forall>s. sentences doc = [s] \<longrightarrow> summarizedText doc n = s @ ''.''"
    using assms(1) summarizedText_single by blast
  have "topSentences doc n \<noteq> []"
    using assms by (rule topSentences_nonempty)
  then have shown: "timers st = [] \<longrightarrow> summary (summarize doc n st) = summarizedText doc n"
    using assms(2) by (simp add: summary_summarize)
  from len per three single shown show ?thesis by blast
qed

theorem summary_length_clamped_witness:
  "(1::int) \<le> 1000 \<and> sentences doc_three \<noteq> [] \<and> length (sentences doc_three) = 3
   \<and> length (topSentences doc_three 1000) = 3
   \<and> count_list (summarizedText doc_three 1000) CHR ''.'' = 3
   \<and> sentences doc_single = [''The quick brown foxes jump'']
   \<and> summarizedText doc_single 7 = ''The quick brown foxes jump.''
   \<and> timers state0 = []
   \<and> summary (summarize doc_single 7 state0) = ''The quick brown foxes jump.''"
proof -
  have a: "(1::int) \<le> 1000" and b: "(1::int) \<le> 7" by simp_all
  have c: "sentences doc_three \<noteq> []" by (simp add: sentences_doc_three)
  have d: "sentences doc_single \<noteq> []" by (simp add: sentences_doc_single)
  have e: "timers state0 = []" by (simp add: state0_def)
  show ?thesis
    using summary_length_clamped [OF a c, of state0] summary_length_clamped [OF b d, of state0] e
    by (simp add: sentences_doc_three sentences_doc_single)
qed

text \<open>
  C5. Whatever the document and the requested number, the selected sentences stand in the
  summary in ascending order of their index in the sentence pool, that is, in the order of
  the source; the ranking by score does not show in the output.
\<close>

theorem summary_keeps_source_order:
  "sorted_wrt (<) (map index (topSentences doc n))
   \<and> (\<forall>x\<in>set (topSentences doc n).
         index x < length (sentences doc) \<and> sentence x = sentences doc ! index x @ ''.'')
   \<and> summarizedText doc n =
       joinWith '' '' (map (\<lambda>i. sentences doc ! i @ ''.'') (map index (topSentences doc n)))"
  using sorted_index_topSentences [of doc n] topSentences_member [of _ doc n]
    summarizedText_by_index [of doc n]
  by blast

theorem summary_keeps_source_order_witness:
  "map index (sort_cmp (\<lambda>a b. score b - score a) (sentenceScores doc_pair)) = [1, 0]
   \<and> set (topSentences doc_pair 2) \<noteq> {}
   \<and> sorted_wrt (<) (map index (topSentences doc_pair 2))
   \<and> map index (topSentences doc_pair 2) = [0, 1]
   \<and> summarizedText doc_pair 2 = ''Alpha beta gamma delta. Foxes foxes foxes foxes.''"
proof -
  have "map index (sort_cmp (\<lambda>a b. score b - score a) (sentenceScores doc_pair)) = [1, 0]"
    by (simp add: ranking_doc_pair)
  moreover have "map index (topSentences doc_pair 2) = [0, 1]"
    by (simp add: topSentences_doc_pair)
  moreover have "set (topSentences doc_pair 2) \<noteq> {}"
    by (simp add: topSentences_doc_pair)
  moreover have "summarizedText doc_pair 2 = ''Alpha beta gamma delta. Foxes foxes foxes foxes.''"
    using summary_keeps_source_order [of doc_pair 2]
    by (simp add: topSentences_doc_pair sentences_doc_pair)
  ultimately show ?thesis
    using summary_keeps_source_order [of doc_pair 2] by simp
qed

text \<open>
  C6, as stated, fails for the empty document: the handler returns before the algorithm,
  shows the toast "No Text" and leaves the displayed summary as it was, so the "no valid
  sentences" text is not produced.
\<close>

theorem empty_document_counterexample:
  "trim [] = []
   \<and> summary (summarize [] 3 state0) \<noteq> noValidSentences
   \<and> toasts (summarize [] 3 state0) = [NoText]"
proof -
  have a: "trim [] = []" by (simp add: trim_def)
  have t: "timers state0 = []" by (simp add: state0_def)
  have eq: "summarize [] 3 state0 =
      state0\<lparr> inputText := [], summaryLength0 := 3, toasts := toasts state0 @ [NoText] \<rparr>"
    using a t by (rule summarize_blank)
  have b: "summary (summarize [] 3 state0) \<noteq> noValidSentences"
    unfolding eq by (simp add: state0_def noValidSentences_def)
  have c: "toasts (summarize [] 3 state0) = [NoText]"
    unfolding eq by (simp add: state0_def)
  show ?thesis by (intro conjI a b c)
qed

text \<open>
  C6, amended. A document that is not blank and yields no eligible sentence makes the
  component display "No valid sentences found for summarization.", without a toast and
  without an exception; \<^verbatim>\<open>"... . !!"\<close> is such a document. A document that is empty after
  trimming is answered before the algorithm runs, by the toast "No Text", and the displayed
  summary stays as it was.
\<close>

theorem no_valid_sentences:
  assumes "timers st = []"
  shows "(trim doc \<noteq> [] \<and> sentences doc = [] \<longrightarrow>
            summary (summarize doc n st) = noValidSentences
            \<and> toasts (summarize doc n st) = toasts st
            \<and> \<not> isProcessing (summarize doc n st))
       \<and> (trim doc = [] \<longrightarrow>
            summary (summarize doc n st) = summary st
            \<and> toasts (summarize doc n st) = toasts st @ [NoText])
       \<and> summary (summarize doc_short 3 st) = noValidSentences"
proof -
  have a: "trim doc \<noteq> [] \<and> sentences doc = [] \<longrightarrow>
            summary (summarize doc n st) = noValidSentences
            \<and> toasts (summarize doc n st) = toasts st
            \<and> \<not> isProcessing (summarize doc n st)"
    using assms by (simp add: summarize_no_sentences)
  have b: "trim doc = [] \<longrightarrow>
            summary (summarize doc n st) = summary st
            \<and> toasts (summarize doc n st) = toasts st @ [NoText]"
    using assms by (simp add: summarize_blank)
  have c: "summary (summarize doc_short 3 st) = noValidSentences"
    using assms trim_doc_short sentences_doc_short by (simp add: summarize_no_sentences)
  show ?thesis by (intro conjI a b c)
qed

theorem no_valid_sentences_witness:
  "timers state0 = [] \<and> trim doc_short \<noteq> [] \<and> sentences doc_short = []
   \<and> summary (summarize doc_short 3 state0) = noValidSentences
   \<and> toasts (summarize doc_short 3 state0) = []
   \<and> trim [] = []
   \<and> summary (summarize [] 3 state0) = []
   \<and> toasts (summarize [] 3 state0) = [NoText]"
proof -
  have t: "timers state0 = []" by (simp add: state0_def)
  have e: "trim [] = []" by (simp add: trim_def)
  show ?thesis
    using no_valid_sentences [OF t, of doc_short 3] no_valid_sentences [OF t, of "[]" 3]
      trim_doc_short sentences_doc_short t e
    by (simp add: state0_def)
qed






text \<open>
  C9, as stated, fails in its second half: when the document repeats a sentence, both
  occurrences are eligible, both can be selected, and the summary then holds the same
  text twice.
\<close>

theorem summary_duplicate_counterexample:
  "map sentence (topSentences doc_twice 2) = [''Hello world again.'', ''Hello world again.'']
   \<and> \<not> distinct (map sentence (topSentences doc_twice 2))
   \<and> summarizedText doc_twice 2 = ''Hello world again. Hello world again.''"
proof -
  let ?top = "topSentences doc_twice 2"
  have len: "length ?top = 2"
    by (simp add: length_topSentences sentences_doc_twice)
  have "sentence x = ''Hello world again.''" if "x \<in> set ?top" for x
  proof -
    from that have "index x < length (sentences doc_twice)"
      and "sentence x = sentences doc_twice ! index x @ ''.''"
      using topSentences_member by blast+
    then show ?thesis
      by (cases "index x = 0") (simp_all add: sentences_doc_twice nth_Cons')
  qed
  then have "\<forall>y\<in>set (map sentence ?top). y = ''Hello world again.''" by simp
  then have "replicate (length (map sentence ?top)) ''Hello world again.'' = map sentence ?top"
    by (rule replicate_length_same)
  then have a: "map sentence ?top = [''Hello world again.'', ''Hello world again.'']"
    by (simp add: len numeral_2_eq_2)
  then have b: "\<not> distinct (map sentence ?top)" by simp
  have c: "summarizedText doc_twice 2 = ''Hello world again. Hello world again.''"
    by (simp add: summarizedText_def a)
  show ?thesis by (intro conjI a b c)
qed

text \<open>
  C9, amended. Every sentence of a summary is a trimmed fragment of the split of the input
  document, free of periods, with one period appended; the summary is a subsequence of the
  eligible sentence pool, in which no position of the pool is used more than once; and no
  text appears twice in the summary when the fragments of the pool are pairwise different.
\<close>

theorem summary_subsequence_of_pool:
  "subseq (map sentence (topSentences doc n)) (map (\<lambda>s. s @ ''.'') (sentences doc))
   \<and> distinct (map index (topSentences doc n))
   \<and> (distinct (sentences doc) \<longrightarrow> distinct (map sentence (topSentences doc n)))
   \<and> (\<forall>s\<in>set (sentences doc). \<exists>p\<in>set (split_on isTerminator doc). s = trim p)
   \<and> (\<forall>x\<in>set (topSentences doc n).
         \<exists>s\<in>set (sentences doc). sentence x = s @ ''.'' \<and> CHR ''.'' \<notin> set s)"
proof -
  have a: "subseq (map sentence (topSentences doc n)) (map (\<lambda>s. s @ ''.'') (sentences doc))"
    by (rule subseq_topSentences)
  have b: "distinct (map index (topSentences doc n))"
    by (rule distinct_index_topSentences)
  have c: "distinct (sentences doc) \<longrightarrow> distinct (map sentence (topSentences doc n))"
    using distinct_topSentences_text by blast
  have d: "\<forall>s\<in>set (sentences doc). \<exists>p\<in>set (split_on isTerminator doc). s = trim p"
    using sentences_from_split by blast
  have e: "\<forall>x\<in>set (topSentences doc n).
         \<exists>s\<in>set (sentences doc). sentence x = s @ ''.'' \<and> CHR ''.'' \<notin> set s"
    using topSentences_from_pool by blast
  show ?thesis by (intro conjI a b c d e)
qed

theorem summary_subsequence_of_pool_witness:
  "distinct (sentences doc_pair) \<and> set (sentences doc_pair) \<noteq> {}
   \<and> set (topSentences doc_pair 2) \<noteq> {}
   \<and> distinct (map sentence (topSentences doc_pair 2))
   \<and> subseq (map sentence (topSentences doc_pair 2))
        [''Alpha beta gamma delta.'', ''Foxes foxes foxes foxes.'']"
proof -
  have a: "distinct (sentences doc_pair)" by (simp add: sentences_doc_pair)
  have b: "set (sentences doc_pair) \<noteq> {}" by (simp add: sentences_doc_pair)
  have c: "set (topSentences doc_pair 2) \<noteq> {}" by (simp add: topSentences_doc_pair)
  have d: "distinct (map sentence (topSentences doc_pair 2))"
    using summary_subsequence_of_pool [of doc_pair 2] a by blast
  have "subseq (map sentence (topSentences doc_pair 2))
          (map (\<lambda>s. s @ ''.'') (sentences doc_pair))"
    using summary_subsequence_of_pool [of doc_pair 2] by (elim conjE)
  then have e: "subseq (map sentence (topSentences doc_pair 2))
        [''Alpha beta gamma delta.'', ''Foxes foxes foxes foxes.'']"
    by (simp add: sentences_doc_pair)
  show ?thesis by (intro conjI a b c d e)
qed

text \<open>
  C10. When the input text is empty or holds white space only, \<^verbatim>\<open>summarizeText\<close> returns
  before the algorithm: it shows the toast "No Text" and changes nothing else. The
  displayed summary, the processing flag and the pending callbacks are as before, so the
  "no valid sentences" text is not set and earlier output is not cleared.
\<close>

theorem blank_input_returns_early:
  assumes "\<forall>c\<in>set (inputText st). isWhiteSpace c"
  shows "summarizeText st = st\<lparr> toasts := toasts st @ [NoText] \<rparr>
       \<and> summary (summarizeText st) = summary st
       \<and> isProcessing (summarizeText st) = isProcessing st
       \<and> timers (summarizeText st) = timers st
       \<and> (timers st = [] \<longrightarrow> summary (fireTimer (summarizeText st)) = summary st)"
proof -
  have "trim (inputText st) = []" using assms by (simp only: trim_blank_iff)
  then have a: "summarizeText st = st\<lparr> toasts := toasts st @ [NoText] \<rparr>"
    by (rule summarizeText_blank)
  show ?thesis unfolding a by (simp add: fireTimer_def)
qed

theorem blank_input_returns_early_witness:
  "inputText (state0\<lparr> inputText := ''  '', summary := ''earlier text'' \<rparr>) = ''  ''
   \<and> isWhiteSpace CHR '' ''
   \<and> timers (state0\<lparr> inputText := ''  '', summary := ''earlier text'' \<rparr>) = []
   \<and> summary (summarizeText (state0\<lparr> inputText := ''  '', summary := ''earlier text'' \<rparr>))
       = ''earlier text''
   \<and> summary (fireTimer (summarizeText
         (state0\<lparr> inputText := ''  '', summary := ''earlier text'' \<rparr>))) = ''earlier text''
   \<and> toasts (summarizeText (state0\<lparr> inputText := ''  '', summary := ''earlier text'' \<rparr>))
       = [NoText]"
proof -
  let ?st = "state0\<lparr> inputText := ''  '', summary := ''earlier text'' \<rparr>"
  have w: "\<forall>c\<in>set (inputText ?st). isWhiteSpace c"
    by (simp add: state0_def isWhiteSpace_def)
  have t: "timers ?st = []" by (simp add: state0_def)
  note th = blank_input_returns_early [OF w]
  from th have s1: "summarizeText ?st = ?st\<lparr> toasts := toasts ?st @ [NoText] \<rparr>"
    by (elim conjE)
  from th have s2: "summary (summarizeText ?st) = summary ?st"
    by (elim conjE)
  from th t have s3: "summary (fireTimer (summarizeText ?st)) = summary ?st"
    by blast
  have s: "summary ?st = ''earlier text''" by (simp add: state0_def)
  have a: "toasts (summarizeText ?st) = [NoText]"
    unfolding s1 by (simp add: state0_def)
  have b: "summary (summarizeText ?st) = ''earlier text''"
    using s2 s by simp
  have c: "summary (fireTimer (summarizeText ?st)) = ''earlier text''"
    using s3 s by simp
  have i: "inputText ?st = ''  ''" by (simp add: state0_def)
  have sp: "isWhiteSpace CHR '' ''" by (simp add: isWhiteSpace_def)
  show ?thesis by (intro conjI i sp t a b c)
qed

end
